theory Spec2Isabelle
  imports Main "HOL-Library.Sublist"
begin

section \<open>Strings of code points\<close>

text \<open>
  A Python \<open>str\<close> is a sequence of Unicode code points, so a character is modelled by
  its code point and a string by a list of code points.
\<close>

type_synonym uchar = nat
type_synonym ustring = "uchar list"

text \<open>
  The exceptions of the program. \<open>ClientError\<close> stands for what the request raises
  (a connection error, a timeout); \<open>CancelledError\<close> is \<open>asyncio.CancelledError\<close>,
  which derives from \<open>BaseException\<close> and not from \<open>Exception\<close>.
\<close>

datatype exn = ValueError | IndexError | AttributeError | ClientError | CancelledError

text \<open>\<open>isinstance(e, Exception)\<close>, also what \<open>except Exception\<close> catches.\<close>

definition is_Exception :: "exn \<Rightarrow> bool" where
  "is_Exception e = (e \<noteq> CancelledError)"

abbreviation newline :: uchar where "newline \<equiv> 10"
abbreviation space :: uchar where "space \<equiv> 32"
abbreviation dquote :: uchar where "dquote \<equiv> 34"
abbreviation apostrophe :: uchar where "apostrophe \<equiv> 39"
abbreviation lparen :: uchar where "lparen \<equiv> 40"
abbreviation rparen :: uchar where "rparen \<equiv> 41"
abbreviation qmark :: uchar where "qmark \<equiv> 63"
abbreviation backslash :: uchar where "backslash \<equiv> 92"

abbreviation alef :: uchar where "alef \<equiv> 1488"
abbreviation bet :: uchar where "bet \<equiv> 1489"
abbreviation gimel :: uchar where "gimel \<equiv> 1490"
abbreviation dalet :: uchar where "dalet \<equiv> 1491"
abbreviation he :: uchar where "he \<equiv> 1492"
abbreviation vav :: uchar where "vav \<equiv> 1493"
abbreviation zayin :: uchar where "zayin \<equiv> 1494"
abbreviation het :: uchar where "het \<equiv> 1495"
abbreviation tet :: uchar where "tet \<equiv> 1496"
abbreviation yod :: uchar where "yod \<equiv> 1497"
abbreviation kaf :: uchar where "kaf \<equiv> 1499"
abbreviation lamed :: uchar where "lamed \<equiv> 1500"
abbreviation final_mem :: uchar where "final_mem \<equiv> 1501"
abbreviation mem :: uchar where "mem \<equiv> 1502"
abbreviation final_nun :: uchar where "final_nun \<equiv> 1503"
abbreviation nun :: uchar where "nun \<equiv> 1504"
abbreviation samekh :: uchar where "samekh \<equiv> 1505"
abbreviation ayin :: uchar where "ayin \<equiv> 1506"
abbreviation pe :: uchar where "pe \<equiv> 1508"
abbreviation tsadi :: uchar where "tsadi \<equiv> 1510"
abbreviation qof :: uchar where "qof \<equiv> 1511"
abbreviation resh :: uchar where "resh \<equiv> 1512"
abbreviation shin :: uchar where "shin \<equiv> 1513"
abbreviation tav :: uchar where "tav \<equiv> 1514"

text \<open>\<open>s.startswith(p)\<close>\<close>

definition startswith :: "ustring \<Rightarrow> ustring \<Rightarrow> bool" where
  "startswith s p = prefix p s"

text \<open>\<open>sub in s\<close> for strings: \<open>sub\<close> occurs in \<open>s\<close> as a contiguous run.\<close>

fun contains :: "ustring \<Rightarrow> ustring \<Rightarrow> bool" where
  "contains sub [] = (sub = [])"
| "contains sub (c # cs) = (prefix sub (c # cs) \<or> contains sub cs)"

text \<open>
  \<open>s.replace(old, '')\<close>: the occurrences of \<open>old\<close> are removed from left to right,
  without overlap. With an empty \<open>old\<close> Python returns \<open>s\<close>.
\<close>

function str_remove :: "ustring \<Rightarrow> ustring \<Rightarrow> ustring" where
  "str_remove old [] = []"
| "str_remove old (c # cs) =
     (if old \<noteq> [] \<and> prefix old (c # cs)
      then str_remove old (drop (length old) (c # cs))
      else c # str_remove old cs)"
  by pat_completeness auto
termination
  by (relation "measure (\<lambda>(old, s). length s)") (auto simp: neq_Nil_conv)

text \<open>
  \<open>s.split(sep)\<close> with a separator: the pieces between the occurrences of \<open>sep\<close>,
  found from left to right without overlap; Python raises \<open>ValueError\<close> on an empty
  separator. \<open>acc\<close> holds the current piece, reversed.
\<close>

function split_from :: "ustring \<Rightarrow> ustring \<Rightarrow> ustring \<Rightarrow> ustring list" where
  "split_from sep acc [] = [rev acc]"
| "split_from sep acc (c # cs) =
     (if sep \<noteq> [] \<and> prefix sep (c # cs)
      then rev acc # split_from sep [] (drop (length sep) (c # cs))
      else split_from sep (c # acc) cs)"
  by pat_completeness auto
termination
  by (relation "measure (\<lambda>(sep, acc, s). length s)") (auto simp: neq_Nil_conv)

definition split :: "ustring \<Rightarrow> ustring \<Rightarrow> exn + ustring list" where
  "split s sep = (if sep = [] then Inl ValueError else Inr (split_from sep [] s))"

text \<open>
  \<open>str.isspace\<close> on one character: the code points Python treats as whitespace, which
  \<open>s.strip()\<close> removes from both ends.
\<close>

definition isspace :: "uchar \<Rightarrow> bool" where
  "isspace c = ((9 \<le> c \<and> c \<le> 13) \<or> (28 \<le> c \<and> c \<le> 32) \<or> c = 133 \<or> c = 160
     \<or> c = 5760 \<or> (8192 \<le> c \<and> c \<le> 8202) \<or> c = 8232 \<or> c = 8233 \<or> c = 8239
     \<or> c = 8287 \<or> c = 12288)"

definition strip :: "ustring \<Rightarrow> ustring" where
  "strip s = rev (dropWhile isspace (rev (dropWhile isspace s)))"

text \<open>\<open>d.get(k, default)\<close> on a dictionary written as a list of key-value pairs.\<close>

definition dict_get :: "('k \<times> 'v) list \<Rightarrow> 'k \<Rightarrow> 'v \<Rightarrow> 'v" where
  "dict_get d k dflt = (case map_of d k of Some v \<Rightarrow> v | None \<Rightarrow> dflt)"

section \<open>Numeral decoder: \<open>hebrew_to_int\<close>\<close>

definition letters :: "(uchar \<times> int) list" where
  "letters =
    [(alef, 1), (bet, 2), (gimel, 3), (dalet, 4), (he, 5), (vav, 6), (zayin, 7), (het, 8),
     (tet, 9), (yod, 10), (kaf, 20), (lamed, 30), (mem, 40), (nun, 50), (samekh, 60),
     (ayin, 70), (pe, 80), (tsadi, 90), (qof, 100), (resh, 200), (shin, 300), (tav, 400)]"

text \<open>
  The loop \<open>for letter in hebrew: value += letters.get(letter, 0)\<close>. The caller wraps
  the call in \<open>try ... except ValueError\<close>, so the result type has room for an
  exception; no statement of the body raises one.
\<close>

fun hebrew_loop :: "int \<Rightarrow> ustring \<Rightarrow> exn + int" where
  "hebrew_loop val [] = Inr val"
| "hebrew_loop val (letter # rest) = hebrew_loop (val + dict_get letters letter 0) rest"

definition hebrew_to_int :: "ustring \<Rightarrow> exn + int" where
  "hebrew_to_int hebrew =
     (if hebrew = [] then Inr 0
      else hebrew_loop 0 (str_remove [dquote] (str_remove [apostrophe] hebrew)))"

section \<open>Diacritic normalizer: \<open>remove_nikud\<close>\<close>

text \<open>
  \<open>remove_nikud\<close> calls \<open>unicodedata.normalize('NFD', text)\<close> and
  \<open>unicodedata.category\<close>. Both read the Unicode Character Database, which is data of
  the Python runtime; it is a parameter here: the full canonical decomposition of a
  character, its canonical combining class, and whether its general category is \<open>Mn\<close>.
\<close>

record ucd =
  decomposition :: "uchar \<Rightarrow> ustring"
  combining :: "uchar \<Rightarrow> nat"
  category_Mn :: "uchar \<Rightarrow> bool"

text \<open>
  Canonical ordering: a character of non-zero combining class moves left past every
  character of a greater class that immediately precedes it. \<open>out\<close> is the output so
  far, reversed.
\<close>

fun reorder_insert :: "(uchar \<Rightarrow> nat) \<Rightarrow> uchar \<Rightarrow> ustring \<Rightarrow> ustring" where
  "reorder_insert ccc c [] = [c]"
| "reorder_insert ccc c (p # out) =
     (if ccc c \<noteq> 0 \<and> ccc c < ccc p then p # reorder_insert ccc c out else c # p # out)"

definition canonical_order :: "(uchar \<Rightarrow> nat) \<Rightarrow> ustring \<Rightarrow> ustring" where
  "canonical_order ccc s = rev (foldl (\<lambda>out c. reorder_insert ccc c out) [] s)"

definition normalize_NFD :: "ucd \<Rightarrow> ustring \<Rightarrow> ustring" where
  "normalize_NFD U s = canonical_order (combining U) (concat (map (decomposition U) s))"

definition remove_nikud :: "ucd \<Rightarrow> ustring \<Rightarrow> ustring" where
  "remove_nikud U txt = filter (\<lambda>c. \<not> category_Mn U c) (normalize_NFD U txt)"

text \<open>
  An excerpt of the Unicode Character Database, for the examples. It agrees with the
  database on ASCII, on the Hebrew letters U+05D0 to U+05EA and on the characters it
  lists: U+05B8 qamats (Mn, class 18), U+05C1 shin dot (Mn, class 24), U+FB2A shin with
  shin dot (decomposes to U+05E9 U+05C1), U+0901 candrabindu (Mn, class 0), U+1D165
  musical combining stem (Mc, class 216), U+1D16D musical combining augmentation dot
  (Mc, class 226).
\<close>

definition ucd_excerpt :: ucd where
  "ucd_excerpt =
     \<lparr> decomposition = (\<lambda>c. if c = 64298 then [shin, 1473] else [c]),
       combining = (\<lambda>c. if c = 1464 then 18 else if c = 1473 then 24
                         else if c = 119141 then 216 else if c = 119149 then 226 else 0),
       category_Mn = (\<lambda>c. c = 1464 \<or> c = 1473 \<or> c = 2305) \<rparr>"

section \<open>Month table and line classes\<close>

definition month_map :: "(ustring \<times> int) list" where
  "month_map =
    [([nun, yod, samekh, final_nun], 1),
     ([alef, yod, yod, resh], 2),
     ([samekh, yod, vav, final_nun], 3),
     ([tav, mem, vav, zayin], 4),
     ([alef, bet], 5),
     ([mem, nun, het, final_mem, space, alef, bet], 5),
     ([mem, nun, dquote, alef], 5),
     ([alef, lamed, vav, lamed], 6),
     ([tav, shin, resh, yod], 7),
     ([het, shin, vav, final_nun], 8),
     ([mem, resh, het, shin, vav, final_nun], 8),
     ([kaf, samekh, lamed, vav], 9),
     ([tet, bet, tav], 10),
     ([shin, bet, tet], 11),
     ([alef, dalet, resh], 12),
     ([alef, dalet, resh, space, alef, apostrophe], 12),
     ([alef, dalet, resh, space, bet, apostrophe], 13)]"

definition adar_a :: ustring where
  "adar_a = [alef, dalet, resh, space, alef, apostrophe]"

definition adar_b :: ustring where
  "adar_b = [alef, dalet, resh, space, bet, apostrophe]"

definition day_letters :: ustring where
  "day_letters = [alef, bet, gimel, dalet, he, vav, zayin, het, tet, yod, kaf, lamed]"

definition rabbi :: ustring where
  "rabbi = [resh, bet, yod, space]"

definition name_prefixes :: "ustring list" where
  "name_prefixes =
    [[resh, bet, yod, space],
     [yod, shin, shin, kaf, resh, space],
     [he, shin, resh, space],
     [shin, mem, ayin, vav, final_nun, space],
     [qmark, qmark, resh, bet, yod, space],
     [qmark, resh, bet, yod, space],
     [mem, shin, he, space],
     [resh, bet, yod, nun, vav, space]]"

definition marker_a :: ustring where
  "marker_a = [lparen, alef, rparen]"

definition marker_b :: ustring where
  "marker_b = [lparen, bet, rparen]"

definition connectors :: "ustring list" where
  "connectors = [[vav, bet, nun, vav], [vav, het, tav, nun, vav]]"

definition author_name :: ustring where
  "author_name =
    [alef, lamed, tet, ayin, resh, nun, ayin, samekh, yod, yod, dalet, space,
     pe, alef, resh, qof, yod, nun, gimel]"

section \<open>Block scanner: the loop of \<open>fetch_forum_page\<close>\<close>

record scan_state =
  current_day :: "int option"
  current_month :: "int option"
  default_pref :: "int option"

record entry =
  entry_text :: ustring
  adar_pref :: "int option"

type_synonym key = "int option \<times> int option"

text \<open>A Python dictionary of lists, in insertion order.\<close>

type_synonym yahrtzeits = "(key \<times> entry list) list"

text \<open>\<open>if key not in d: d[key] = []\<close> followed by \<open>d[key].extend(vs)\<close>.\<close>

fun dict_extend :: "'k \<Rightarrow> 'v list \<Rightarrow> ('k \<times> 'v list) list \<Rightarrow> ('k \<times> 'v list) list" where
  "dict_extend k vs [] = [(k, vs)]"
| "dict_extend k vs ((k', ws) # d) =
     (if k' = k then (k', ws @ vs) # d else (k', ws) # dict_extend k vs d)"

definition init_state :: scan_state where
  "init_state = \<lparr> current_day = None, current_month = None, default_pref = None \<rparr>"

text \<open>Truth value of \<open>current_day\<close>: neither \<open>None\<close> nor 0.\<close>

definition truthy :: "int option \<Rightarrow> bool" where
  "truthy v = (case v of None \<Rightarrow> False | Some n \<Rightarrow> n \<noteq> 0)"

definition is_header :: "ustring \<Rightarrow> bool" where
  "is_header line =
     (line \<noteq> [] \<and> list_ex (\<lambda>c. c \<in> set day_letters) (take 2 line)
      \<and> list_ex (\<lambda>month. contains month line) (map fst month_map)
      \<and> \<not> startswith line rabbi)"

text \<open>
  \<open>next((m for m in sorted(month_map.keys(), key=len, reverse=True) if m in line), None)\<close>.
  Python's sort is stable, also with \<open>reverse=True\<close>: keys of equal length keep the
  order of the table.
\<close>

definition sorted_months :: "ustring list" where
  "sorted_months = sort_key (\<lambda>m. - int (length m)) (map fst month_map)"

definition find_month_text :: "ustring \<Rightarrow> ustring option" where
  "find_month_text line = find (\<lambda>m. contains m line) sorted_months"

text \<open>The body of the header branch; \<open>continue\<close> leaves with the state reached so far.\<close>

definition header_step :: "scan_state \<Rightarrow> ustring \<Rightarrow> exn + scan_state" where
  "header_step st line =
     (case split line [space] of
        Inl e \<Rightarrow> Inl e
      | Inr parts \<Rightarrow>
         (case parts of
            [] \<Rightarrow> Inl IndexError
          | day_text # _ \<Rightarrow>
             (case find_month_text line of
                None \<Rightarrow> Inr (st\<lparr>current_day := None\<rparr>)
              | Some month_text \<Rightarrow>
                 if month_text = [] then Inr (st\<lparr>current_day := None\<rparr>)
                 else
                   (case map_of month_map month_text of
                      None \<Rightarrow> Inr (st\<lparr>current_month := None, current_day := None\<rparr>)
                    | Some m \<Rightarrow>
                       let st1 =
                         (if m = 12 \<or> m = 13
                          then st\<lparr>current_month := Some 12,
                                  default_pref :=
                                    (if month_text = adar_a then Some 1
                                     else if month_text = adar_b then Some 2
                                     else None)\<rparr>
                          else st\<lparr>current_month := Some m, default_pref := None\<rparr>)
                       in (case hebrew_to_int day_text of
                             Inr v \<Rightarrow> Inr (st1\<lparr>current_day := Some v\<rparr>)
                           | Inl e \<Rightarrow>
                              if e = ValueError then Inr (st1\<lparr>current_day := None\<rparr>)
                              else Inl e)))))"

definition is_name :: "scan_state \<Rightarrow> ustring \<Rightarrow> bool" where
  "is_name st line = (truthy (current_day st) \<and> list_ex (startswith line) name_prefixes)"

text \<open>The body of the name branch: one entry is appended under the current date.\<close>

definition name_step :: "ucd \<Rightarrow> scan_state \<Rightarrow> yahrtzeits \<Rightarrow> ustring \<Rightarrow> yahrtzeits" where
  "name_step U st local_yahrtzeits line0 =
     (let line1 = str_remove [qmark, qmark] line0;
          (pref, line2) =
             (if startswith line1 marker_a then (Some 1, strip (drop 3 line1))
              else if startswith line1 marker_b then (Some 2, strip (drop 3 line1))
              else (default_pref st, line1));
          d = remove_nikud U line2;
          k = (current_month st, current_day st);
          entry_data = \<lparr> entry_text = d, adar_pref = pref \<rparr>
      in dict_extend k [entry_data] local_yahrtzeits)"

definition scan_line ::
  "ucd \<Rightarrow> scan_state \<times> yahrtzeits \<Rightarrow> ustring \<Rightarrow> exn + scan_state \<times> yahrtzeits" where
  "scan_line U sl raw =
     (let st = fst sl; local_yahrtzeits = snd sl;
          line = str_remove [apostrophe] (str_remove [backslash] raw)
      in if is_header line
         then (case header_step st line of
                 Inl e \<Rightarrow> Inl e
               | Inr st' \<Rightarrow> Inr (st', local_yahrtzeits))
         else if is_name st line then Inr (st, name_step U st local_yahrtzeits line)
         else if line \<in> set connectors then Inr (st, local_yahrtzeits)
         else Inr (st, local_yahrtzeits))"

text \<open>
  The loops return the exception raised, if any, with the state at that moment:
  \<open>local_yahrtzeits\<close> is mutated in place, so what was appended before a raise stays.
\<close>

fun scan_lines ::
  "ucd \<Rightarrow> scan_state \<times> yahrtzeits \<Rightarrow> ustring list \<Rightarrow> exn option \<times> scan_state \<times> yahrtzeits" where
  "scan_lines U sl [] = (None, sl)"
| "scan_lines U sl (line # rest) =
     (case scan_line U sl line of
        Inl e \<Rightarrow> (Some e, sl)
      | Inr sl' \<Rightarrow> scan_lines U sl' rest)"

text \<open>\<open>[line.strip() for line in block.split('\n') if line.strip()]\<close>\<close>

definition block_lines :: "ustring \<Rightarrow> exn + ustring list" where
  "block_lines block =
     (case split block [newline] of
        Inl e \<Rightarrow> Inl e
      | Inr ls \<Rightarrow> Inr (map strip (filter (\<lambda>line. strip line \<noteq> []) ls)))"

definition scan_block ::
  "ucd \<Rightarrow> scan_state \<times> yahrtzeits \<Rightarrow> ustring \<Rightarrow> exn option \<times> scan_state \<times> yahrtzeits" where
  "scan_block U sl block =
     (case block_lines block of
        Inl e \<Rightarrow> (Some e, sl)
      | Inr ls \<Rightarrow> scan_lines U sl ls)"

fun scan_content ::
  "ucd \<Rightarrow> scan_state \<times> yahrtzeits \<Rightarrow> ustring list \<Rightarrow> exn option \<times> scan_state \<times> yahrtzeits" where
  "scan_content U sl [] = (None, sl)"
| "scan_content U sl (block # rest) =
     (case scan_block U sl block of
        (Some e, sl') \<Rightarrow> (Some e, sl')
      | (None, sl') \<Rightarrow> scan_content U sl' rest)"

section \<open>Posts and pages\<close>

text \<open>
  What the scan reads from one post of the parsed page: \<open>author\<close> is the text of the
  user-name link of the post's profile (\<open>None\<close> when the profile or the link is
  missing); \<open>postbody\<close> is \<open>None\<close> when the post has no body element, \<open>Some None\<close>
  when the body has no content element, and otherwise the content's text with its
  pieces joined by newlines.
\<close>

record post =
  author :: "ustring option"
  postbody :: "ustring option option"

text \<open>
  One iteration of \<open>for post in posts\<close>. A post without a body element raises
  \<open>AttributeError\<close> (\<open>find\<close> is called on \<open>None\<close>); the scan state starts afresh in
  every post.
\<close>

definition scan_post :: "ucd \<Rightarrow> yahrtzeits \<Rightarrow> post \<Rightarrow> exn option \<times> yahrtzeits" where
  "scan_post U local_yahrtzeits p =
     (if (case author p of None \<Rightarrow> False | Some a \<Rightarrow> strip a \<noteq> author_name)
      then (None, local_yahrtzeits)
      else
        (case postbody p of
           None \<Rightarrow> (Some AttributeError, local_yahrtzeits)
         | Some None \<Rightarrow> (None, local_yahrtzeits)
         | Some (Some txt) \<Rightarrow>
            (case split (strip txt) [newline, newline] of
               Inl e \<Rightarrow> (Some e, local_yahrtzeits)
             | Inr content \<Rightarrow>
                (case scan_content U (init_state, local_yahrtzeits) content of
                   (r, st, local') \<Rightarrow> (r, local')))))"

fun scan_posts :: "ucd \<Rightarrow> yahrtzeits \<Rightarrow> post list \<Rightarrow> exn option \<times> yahrtzeits" where
  "scan_posts U local_yahrtzeits [] = (None, local_yahrtzeits)"
| "scan_posts U local_yahrtzeits (p # ps) =
     (case scan_post U local_yahrtzeits p of
        (Some e, local') \<Rightarrow> (Some e, local')
      | (None, local') \<Rightarrow> scan_posts U local' ps)"

text \<open>
  The outcome of the request and of parsing the page: it raises before any post is
  looked at, or it gives a status and the posts found.
\<close>

datatype response = Fetch_raises exn | Response int "post list"

text \<open>
  \<open>fetch_forum_page\<close>: both the normal return and the \<open>except Exception\<close> handler
  return \<open>local_yahrtzeits\<close>. An exception that is not an \<open>Exception\<close> passes the
  handler and leaves the coroutine; \<open>gather\<close> then hands it to \<open>main\<close> as the
  unit's result.
\<close>

definition fetch_forum_page :: "ucd \<Rightarrow> response \<Rightarrow> exn + yahrtzeits" where
  "fetch_forum_page U r =
     (case r of
        Fetch_raises e \<Rightarrow> if is_Exception e then Inr [] else Inl e
      | Response status posts \<Rightarrow>
         if status \<noteq> 200 then Inr []
         else
           (case scan_posts U [] posts of
              (Some e, local_yahrtzeits) \<Rightarrow>
                 if is_Exception e then Inr local_yahrtzeits else Inl e
            | (None, local_yahrtzeits) \<Rightarrow> Inr local_yahrtzeits))"

section \<open>Record aggregator: \<open>main\<close>\<close>

text \<open>
  The merge loop over the gathered results, each the map a unit returned or the
  exception that left it. A result that is an instance of \<open>Exception\<close> is skipped. Any
  other exception object fails the \<open>isinstance\<close> test, and \<open>result.items()\<close> on it
  raises \<open>AttributeError\<close>, which ends \<open>main\<close>.
\<close>

fun merge_results :: "yahrtzeits \<Rightarrow> (exn + yahrtzeits) list \<Rightarrow> exn + yahrtzeits" where
  "merge_results data [] = Inr data"
| "merge_results data (Inl e # results) =
     (if is_Exception e then merge_results data results else Inl AttributeError)"
| "merge_results data (Inr result # results) =
     merge_results (foldl (\<lambda>d (k, v). dict_extend k v d) data result) results"

text \<open>The loop \<open>for e in data[key]\<close> with its set \<open>seen\<close> and list \<open>ordered_unique\<close>.\<close>

fun dedup_loop ::
  "(ustring \<times> int option) set \<Rightarrow> entry list \<Rightarrow> entry list \<Rightarrow> entry list" where
  "dedup_loop seen ordered_unique [] = ordered_unique"
| "dedup_loop seen ordered_unique (e # es) =
     (let tup = (entry_text e, adar_pref e)
      in if tup \<notin> seen then dedup_loop (insert tup seen) (ordered_unique @ [e]) es
         else dedup_loop seen ordered_unique es)"

definition dedup_data :: "yahrtzeits \<Rightarrow> yahrtzeits" where
  "dedup_data data = map (\<lambda>(k, v). (k, dedup_loop {} [] v)) data"

text \<open>The map \<open>main\<close> writes out, or the exception that ends it.\<close>

definition main_data :: "(exn + yahrtzeits) list \<Rightarrow> exn + yahrtzeits" where
  "main_data results =
     (case merge_results [] results of
        Inl e \<Rightarrow> Inl e
      | Inr data \<Rightarrow> Inr (dedup_data data))"

text \<open>
  The specification's wording of the deduplication: an entry stays when no earlier
  entry of the list has its text and its preference.
\<close>

definition first_occurrences :: "entry list \<Rightarrow> entry list" where
  "first_occurrences es =
     map (\<lambda>i. es ! i)
       (filter (\<lambda>i. list_all (\<lambda>j. (entry_text (es ! j), adar_pref (es ! j))
                                    \<noteq> (entry_text (es ! i), adar_pref (es ! i))) [0..<i])
          [0..<length es])"

text \<open>
  The records the gathered results hold under one key, in the order of the merge:
  result after result, and within a result in the order of emission.
\<close>

definition records_at :: "key \<Rightarrow> (exn + yahrtzeits) list \<Rightarrow> entry list" where
  "records_at k results =
     concat (map (\<lambda>r. case r of
                          Inl e \<Rightarrow> []
                        | Inr d \<Rightarrow> concat (map snd (filter (\<lambda>p. fst p = k) d)))
                 results)"

text \<open>A post that makes the scan raise: the author filter lets it through and it has no body.\<close>

definition post_raises :: "post \<Rightarrow> bool" where
  "post_raises p =
     (\<not> (case author p of None \<Rightarrow> False | Some a \<Rightarrow> strip a \<noteq> author_name)
      \<and> postbody p = None)"

section \<open>Invariants of the scan\<close>

text \<open>A key with a month from 1 to 12 and a day of at least 1.\<close>

definition valid_key :: "key \<Rightarrow> bool" where
  "valid_key k =
     (case k of
        (Some m, Some d) \<Rightarrow> 1 \<le> m \<and> m \<le> 12 \<and> 1 \<le> d
      | _ \<Rightarrow> False)"

text \<open>While a day is in force, the month and the day of the state form a valid key.\<close>

definition state_ok :: "scan_state \<Rightarrow> bool" where
  "state_ok st = (truthy (current_day st) \<longrightarrow> valid_key (current_month st, current_day st))"

definition keys_ok :: "yahrtzeits \<Rightarrow> bool" where
  "keys_ok d = list_all (\<lambda>(k, es). valid_key k \<and> es \<noteq> []) d"

section \<open>Facts about the string operations\<close>

lemma str_remove_single: "str_remove [q] s = filter (\<lambda>c. c \<noteq> q) s"
  by (induction s) auto

lemma hebrew_loop_sum:
  "hebrew_loop val s = Inr (val + sum_list (map (\<lambda>c. dict_get letters c 0) s))"
  by (induction s arbitrary: val) auto

lemma hebrew_to_int_filter:
  "hebrew_to_int s =
     Inr (sum_list (map (\<lambda>c. dict_get letters c 0)
            (filter (\<lambda>c. c \<noteq> apostrophe \<and> c \<noteq> dquote) s)))"
  by (simp add: hebrew_to_int_def str_remove_single hebrew_loop_sum conj_commute)

lemma sorted_months_eq:
  "sorted_months =
    [[mem, nun, het, final_mem, space, alef, bet],
     [mem, resh, het, shin, vav, final_nun],
     [alef, dalet, resh, space, alef, apostrophe],
     [alef, dalet, resh, space, bet, apostrophe],
     [nun, yod, samekh, final_nun], [alef, yod, yod, resh],
     [samekh, yod, vav, final_nun], [tav, mem, vav, zayin],
     [mem, nun, dquote, alef], [alef, lamed, vav, lamed],
     [tav, shin, resh, yod], [het, shin, vav, final_nun],
     [kaf, samekh, lamed, vav], [tet, bet, tav], [shin, bet, tet],
     [alef, dalet, resh], [alef, bet]]"
  by (simp add: sorted_months_def month_map_def)

lemmas scan_defs =
  scan_line_def is_header_def day_letters_def month_map_def startswith_def rabbi_def
  header_step_def split_def find_month_text_def sorted_months_eq hebrew_to_int_def
  dict_get_def letters_def adar_a_def adar_b_def init_state_def is_name_def truthy_def
  name_prefixes_def name_step_def marker_a_def marker_b_def connectors_def

lemmas nikud_defs = remove_nikud_def normalize_NFD_def canonical_order_def ucd_excerpt_def

section \<open>The numeral decoder\<close>

text \<open>
  Claim C4. For every string, \<open>hebrew_to_int\<close> returns the sum, over the characters
  left after all apostrophes and double quotes are removed, of the letter table, where
  a character outside the table counts 0. The table holds the units 1 to 9, the tens
  10 to 90 and the hundreds 100 to 400, one letter each. The empty string gives 0, and
  an apostrophe or a double quote inserted anywhere (or deleted) does not change the
  result.
\<close>

theorem hebrew_to_int_table_sum:
  "hebrew_to_int s =
     Inr (sum_list (map (\<lambda>c. dict_get letters c 0)
            (filter (\<lambda>c. c \<noteq> apostrophe \<and> c \<noteq> dquote) s)))
   \<and> (c \<notin> set (map fst letters) \<longrightarrow> dict_get letters c 0 = 0)
   \<and> map snd letters =
       map int [1..<10] @ map (\<lambda>k. 10 * int k) [1..<10] @ map (\<lambda>k. 100 * int k) [1..<5]
   \<and> distinct (map fst letters)
   \<and> hebrew_to_int [] = Inr 0
   \<and> hebrew_to_int (xs @ apostrophe # ys) = hebrew_to_int (xs @ ys)
   \<and> hebrew_to_int (xs @ dquote # ys) = hebrew_to_int (xs @ ys)"
proof -
  have absent: "c \<notin> set (map fst letters) \<longrightarrow> dict_get letters c 0 = 0"
    by (auto simp: dict_get_def map_of_eq_None_iff [THEN iffD2] split: option.splits
          dest: map_of_SomeD intro: rev_image_eqI)
  have table: "map snd letters =
       map int [1..<10] @ map (\<lambda>k. 10 * int k) [1..<10] @ map (\<lambda>k. 100 * int k) [1..<5]"
    by (simp add: letters_def upt_rec)
  have dist: "distinct (map fst letters)"
    by (simp add: letters_def)
  show ?thesis
    using absent table dist by (simp add: hebrew_to_int_filter)
qed

theorem hebrew_to_int_table_sum_witness:
  "(65::nat) \<notin> set (map fst letters) \<and> dict_get letters 65 0 = 0
   \<and> hebrew_to_int [kaf] = Inr 20
   \<and> hebrew_to_int [yod, dquote, zayin] = Inr 17
   \<and> hebrew_to_int [yod, 65, zayin, apostrophe] = Inr 17"
proof -
  have a: "(65::nat) \<notin> set (map fst letters)"
    by (simp add: letters_def)
  have b: "hebrew_to_int [kaf] = Inr 20"
    using hebrew_to_int_table_sum [of "[kaf]" 65 "[]" "[]"]
    by (simp add: dict_get_def letters_def)
  have c: "hebrew_to_int [yod, dquote, zayin] = Inr 17"
    using hebrew_to_int_table_sum [of "[yod, dquote, zayin]" 65 "[]" "[]"]
    by (simp add: dict_get_def letters_def)
  have d: "hebrew_to_int [yod, 65, zayin, apostrophe] = Inr 17"
    using hebrew_to_int_table_sum [of "[yod, 65, zayin, apostrophe]" 65 "[]" "[]"]
    by (simp add: dict_get_def letters_def)
  show ?thesis
    using a b c d hebrew_to_int_table_sum [of "[]" 65 "[]" "[]"] by simp
qed

section \<open>The diacritic normalizer\<close>

lemma reorder_insert_starter: "ccc c = 0 \<Longrightarrow> reorder_insert ccc c out = c # out"
  by (cases out) auto

lemma set_reorder_insert: "set (reorder_insert ccc c out) = insert c (set out)"
  by (induction out) auto

lemma set_foldl_reorder:
  "set (foldl (\<lambda>out c. reorder_insert ccc c out) acc s) = set acc \<union> set s"
  by (induction s arbitrary: acc) (auto simp: set_reorder_insert)

lemma set_canonical_order: "set (canonical_order ccc s) = set s"
  by (simp add: canonical_order_def set_foldl_reorder)

lemma foldl_reorder_starters:
  "\<forall>c\<in>set s. ccc c = 0 \<Longrightarrow> foldl (\<lambda>out c. reorder_insert ccc c out) acc s = rev s @ acc"
  by (induction s arbitrary: acc) (auto simp: reorder_insert_starter)

lemma canonical_order_starters: "\<forall>c\<in>set s. ccc c = 0 \<Longrightarrow> canonical_order ccc s = s"
  by (simp add: canonical_order_def foldl_reorder_starters)

lemma concat_map_singletons: "\<forall>c\<in>set s. f c = [c] \<Longrightarrow> concat (map f s) = s"
  by (induction s) auto

lemma set_remove_nikud:
  "set (remove_nikud U s) = {c \<in> (\<Union>x\<in>set s. set (decomposition U x)). \<not> category_Mn U c}"
  by (auto simp: remove_nikud_def normalize_NFD_def set_canonical_order)

text \<open>
  Claim C9, as stated: \<open>remove_nikud\<close> applied twice gives what one application gives,
  for every string. It fails on U+1D16D U+0901 U+1D165: the first application deletes
  the nonspacing mark U+0901 (class 0) that kept the two combining characters of
  classes 226 and 216 apart, and the second application's canonical ordering swaps
  them.
\<close>

theorem remove_nikud_twice_counterexample:
  "remove_nikud ucd_excerpt (remove_nikud ucd_excerpt [119149, 2305, 119141])
     \<noteq> remove_nikud ucd_excerpt [119149, 2305, 119141]"
  by (simp add: nikud_defs)

text \<open>
  Claim C9, amended. \<open>remove_nikud\<close> is a total function and its result never holds
  a nonspacing mark. Where the decompositions of the database are full (a character of
  a decomposition decomposes to itself), a second application returns the first result
  put in canonical order. So two applications give what one gives exactly when the
  first result is in canonical order already, and in particular when every character
  the first application leaves has the combining class 0, as in pointed Hebrew text.
\<close>

theorem remove_nikud_second_pass:
  "list_all (\<lambda>c. \<not> category_Mn U c) (remove_nikud U s)
   \<and> ((\<forall>c\<in>set s. \<forall>c'\<in>set (decomposition U c). decomposition U c' = [c']) \<longrightarrow>
        remove_nikud U (remove_nikud U s) = canonical_order (combining U) (remove_nikud U s)
        \<and> ((remove_nikud U (remove_nikud U s) = remove_nikud U s)
             = (canonical_order (combining U) (remove_nikud U s) = remove_nikud U s))
        \<and> ((\<forall>c\<in>set (remove_nikud U s). combining U c = 0) \<longrightarrow>
               remove_nikud U (remove_nikud U s) = remove_nikud U s))"
proof -
  let ?r = "remove_nikud U s"
  have no_mn: "\<And>c. c \<in> set ?r \<Longrightarrow> \<not> category_Mn U c"
    by (simp add: set_remove_nikud)
  then have first: "list_all (\<lambda>c. \<not> category_Mn U c) ?r"
    by (simp add: list_all_iff)
  have second: "remove_nikud U ?r = canonical_order (combining U) ?r"
    if full: "\<forall>c\<in>set s. \<forall>c'\<in>set (decomposition U c). decomposition U c' = [c']"
  proof -
    have "\<forall>c\<in>set ?r. decomposition U c = [c]"
      using full by (auto simp: set_remove_nikud)
    then have "concat (map (decomposition U) ?r) = ?r"
      by (rule concat_map_singletons)
    moreover have "filter (\<lambda>c. \<not> category_Mn U c) (canonical_order (combining U) ?r)
                   = canonical_order (combining U) ?r"
      using no_mn by (intro filter_True) (simp add: set_canonical_order)
    ultimately show ?thesis
      by (simp add: remove_nikud_def [of U ?r] normalize_NFD_def)
  qed
  have third: "remove_nikud U ?r = ?r"
    if full: "\<forall>c\<in>set s. \<forall>c'\<in>set (decomposition U c). decomposition U c' = [c']"
      and zero: "\<forall>c\<in>set ?r. combining U c = 0"
    using second [OF full] canonical_order_starters [OF zero] by simp
  show ?thesis
    using first second third by auto
qed

theorem remove_nikud_second_pass_witness:
  "remove_nikud ucd_excerpt [64298, 1464, resh] = [shin, resh]
   \<and> remove_nikud ucd_excerpt (remove_nikud ucd_excerpt [64298, 1464, resh]) = [shin, resh]
   \<and> list_all (\<lambda>c. \<not> category_Mn ucd_excerpt c) (remove_nikud ucd_excerpt [64298, 1464, resh])
   \<and> remove_nikud ucd_excerpt (remove_nikud ucd_excerpt [120, 119141])
       = remove_nikud ucd_excerpt [120, 119141]"
proof -
  have full: "\<forall>c\<in>set [64298, 1464, resh]. \<forall>c'\<in>set (decomposition ucd_excerpt c).
                decomposition ucd_excerpt c' = [c']"
    by (simp add: ucd_excerpt_def)
  have v: "remove_nikud ucd_excerpt [64298, 1464, resh] = [shin, resh]"
    by (simp add: nikud_defs)
  have zero: "\<forall>c\<in>set (remove_nikud ucd_excerpt [64298, 1464, resh]). combining ucd_excerpt c = 0"
    unfolding v by (simp add: ucd_excerpt_def)
  note hebrew = remove_nikud_second_pass [of ucd_excerpt "[64298, 1464, resh]"]
  from hebrew [THEN conjunct2, THEN mp, OF full, THEN conjunct2, THEN conjunct2,
      THEN mp, OF zero]
  have a: "remove_nikud ucd_excerpt (remove_nikud ucd_excerpt [64298, 1464, resh]) = [shin, resh]"
    by (simp add: v)
  have b: "list_all (\<lambda>c. \<not> category_Mn ucd_excerpt c)
             (remove_nikud ucd_excerpt [64298, 1464, resh])"
    by (rule hebrew [THEN conjunct1])
  have full': "\<forall>c\<in>set [120, 119141]. \<forall>c'\<in>set (decomposition ucd_excerpt c).
                decomposition ucd_excerpt c' = [c']"
    by (simp add: ucd_excerpt_def)
  have ordered: "canonical_order (combining ucd_excerpt) (remove_nikud ucd_excerpt [120, 119141])
                 = remove_nikud ucd_excerpt [120, 119141]"
    by (simp add: nikud_defs)
  from remove_nikud_second_pass [of ucd_excerpt "[120, 119141]",
      THEN conjunct2, THEN mp, OF full', THEN conjunct2, THEN conjunct1] ordered
  have c: "remove_nikud ucd_excerpt (remove_nikud ucd_excerpt [120, 119141])
           = remove_nikud ucd_excerpt [120, 119141]"
    by simp
  show ?thesis
    by (intro conjI v a b c)
qed

section \<open>Facts about the scan\<close>

lemma split_from_nonempty: "split_from sep acc s \<noteq> []"
  by (induction sep acc s rule: split_from.induct) auto

lemma split_space: "\<exists>day_text rest. split line [space] = Inr (day_text # rest)"
  using split_from_nonempty [of "[space]" "[]" line]
  by (cases "split_from [space] [] line") (auto simp: split_def)

lemma month_keys_facts:
  "\<forall>m\<in>set (map fst month_map). m \<noteq> [] \<and> (\<exists>n. map_of month_map m = Some n \<and> 1 \<le> n \<and> n \<le> 13)"
  by (simp add: month_map_def)

lemma set_sorted_months: "set sorted_months = set (map fst month_map)"
  by (simp add: sorted_months_def)

lemma find_month_text_SomeD:
  "find_month_text line = Some m \<Longrightarrow> contains m line \<and> m \<in> set (map fst month_map)"
  unfolding find_month_text_def set_sorted_months [symmetric]
  by (auto simp: find_Some_iff)

lemma find_month_text_found:
  assumes "list_ex (\<lambda>m. contains m line) (map fst month_map)"
  shows "\<exists>m. find_month_text line = Some m"
proof (cases "find_month_text line")
  case None
  then have "\<not> (\<exists>m\<in>set sorted_months. contains m line)"
    by (simp add: find_month_text_def find_None_iff)
  with assms show ?thesis
    by (simp add: set_sorted_months list_ex_iff)
next
  case (Some m)
  then show ?thesis by blast
qed

lemma dict_get_letters_nonneg: "0 \<le> dict_get letters c 0"
  by (simp add: dict_get_def letters_def)

lemma hebrew_to_int_nonneg: "\<exists>v. hebrew_to_int s = Inr v \<and> 0 \<le> v"
  by (auto simp: hebrew_to_int_filter dict_get_letters_nonneg intro!: sum_list_nonneg)

lemma map_of_adar:
  "map_of month_map adar_a = Some 12" "map_of month_map adar_b = Some 13"
  by (simp_all add: month_map_def adar_a_def adar_b_def)

lemma header_step_result:
  assumes sp: "split line [space] = Inr (day_text # rest)"
    and fm: "find_month_text line = Some m"
    and hv: "hebrew_to_int day_text = Inr v"
  shows "\<exists>n. map_of month_map m = Some n \<and> 1 \<le> n \<and> n \<le> 13 \<and>
           header_step st line =
             Inr \<lparr> current_day = Some v,
                   current_month = Some (if n = 13 then 12 else n),
                   default_pref =
                     (if m = adar_a then Some 1 else if m = adar_b then Some 2 else None) \<rparr>"
proof -
  from find_month_text_SomeD [OF fm] have "m \<in> set (map fst month_map)"
    by blast
  with month_keys_facts obtain n
    where ne: "m \<noteq> []" and n: "map_of month_map m = Some n" "1 \<le> n" "n \<le> 13"
    by blast
  have other: "n \<noteq> 12 \<Longrightarrow> n \<noteq> 13 \<Longrightarrow> m \<noteq> adar_a \<and> m \<noteq> adar_b"
    using n(1) map_of_adar by auto
  have "header_step st line =
             Inr \<lparr> current_day = Some v,
                   current_month = Some (if n = 13 then 12 else n),
                   default_pref =
                     (if m = adar_a then Some 1 else if m = adar_b then Some 2 else None) \<rparr>"
    using other by (simp add: header_step_def sp fm hv ne n(1))
  with n show ?thesis by blast
qed

lemma header_step_total:
  "\<exists>st'. header_step st line = Inr st' \<and> state_ok st'"
proof -
  obtain day_text rest where sp: "split line [space] = Inr (day_text # rest)"
    using split_space by blast
  obtain v where hv: "hebrew_to_int day_text = Inr v" "0 \<le> v"
    using hebrew_to_int_nonneg by blast
  show ?thesis
  proof (cases "find_month_text line")
    case None
    then show ?thesis
      by (simp add: header_step_def sp state_ok_def truthy_def)
  next
    case (Some m)
    from header_step_result [OF sp Some hv(1), of st] hv(2) show ?thesis
      by (auto simp: state_ok_def truthy_def valid_key_def)
  qed
qed

lemma keys_ok_dict_extend:
  "keys_ok d \<Longrightarrow> valid_key k \<Longrightarrow> vs \<noteq> [] \<Longrightarrow> keys_ok (dict_extend k vs d)"
  by (induction d) (auto simp: keys_ok_def)

lemma keys_ok_name_step:
  "keys_ok d \<Longrightarrow> state_ok st \<Longrightarrow> truthy (current_day st) \<Longrightarrow> keys_ok (name_step U st d line)"
  by (simp add: name_step_def Let_def state_ok_def keys_ok_dict_extend split: prod.splits)

lemma scan_line_ok:
  assumes "state_ok st" "keys_ok d"
  shows "\<exists>st' d'. scan_line U (st, d) raw = Inr (st', d') \<and> state_ok st' \<and> keys_ok d'"
proof -
  let ?line = "str_remove [apostrophe] (str_remove [backslash] raw)"
  obtain st' where h: "header_step st ?line = Inr st'" "state_ok st'"
    using header_step_total by blast
  show ?thesis
    using assms h by (auto simp: scan_line_def Let_def is_name_def keys_ok_name_step)
qed

lemma scan_lines_ok:
  assumes "state_ok (fst sl)" "keys_ok (snd sl)"
  shows "\<exists>sl'. scan_lines U sl ls = (None, sl') \<and> state_ok (fst sl') \<and> keys_ok (snd sl')"
  using assms
proof (induction ls arbitrary: sl)
  case Nil
  then show ?case by simp
next
  case (Cons line ls)
  obtain st d where sl: "sl = (st, d)" by (cases sl)
  with Cons.prems scan_line_ok [of st d U line] obtain st' d'
    where s: "scan_line U sl line = Inr (st', d')" "state_ok st'" "keys_ok d'"
    by auto
  from Cons.IH [of "(st', d')"] s show ?case by simp
qed

lemma block_lines_total: "\<exists>ls. block_lines block = Inr ls"
  by (simp add: block_lines_def split_def)

lemma scan_block_ok:
  assumes "state_ok (fst sl)" "keys_ok (snd sl)"
  shows "\<exists>sl'. scan_block U sl block = (None, sl') \<and> state_ok (fst sl') \<and> keys_ok (snd sl')"
proof -
  obtain ls where "block_lines block = Inr ls" using block_lines_total by blast
  with scan_lines_ok [OF assms, of U ls] show ?thesis
    by (simp add: scan_block_def)
qed

lemma scan_content_ok:
  assumes "state_ok (fst sl)" "keys_ok (snd sl)"
  shows "\<exists>sl'. scan_content U sl content = (None, sl') \<and> state_ok (fst sl') \<and> keys_ok (snd sl')"
  using assms
proof (induction content arbitrary: sl)
  case Nil
  then show ?case by simp
next
  case (Cons block content)
  from scan_block_ok [OF Cons.prems, of U block] obtain sl'
    where s: "scan_block U sl block = (None, sl')" "state_ok (fst sl')" "keys_ok (snd sl')"
    by blast
  from Cons.IH [OF s(2,3)] s(1) show ?case by simp
qed

lemma state_ok_init: "state_ok init_state"
  by (simp add: state_ok_def init_state_def truthy_def)

lemma scan_post_ok: "keys_ok d \<Longrightarrow> keys_ok (snd (scan_post U d p))"
proof -
  assume d: "keys_ok d"
  have c: "\<And>content. keys_ok (snd (snd (scan_content U (init_state, d) content)))"
  proof -
    fix content
    from scan_content_ok [of "(init_state, d)" U content] d state_ok_init
    show "keys_ok (snd (snd (scan_content U (init_state, d) content)))" by auto
  qed
  show ?thesis
    using d
    by (auto simp: scan_post_def split_def split: option.splits prod.splits)
       (metis c snd_conv)+
qed

lemma scan_posts_ok: "keys_ok d \<Longrightarrow> keys_ok (snd (scan_posts U d ps))"
proof (induction ps arbitrary: d)
  case Nil
  then show ?case by simp
next
  case (Cons p ps)
  from scan_post_ok [OF Cons.prems, of U p] Cons.IH [of "snd (scan_post U d p)"]
  show ?case by (auto split: prod.splits option.splits)
qed

lemma scan_line_total: "\<exists>sl'. scan_line U sl raw = Inr sl'"
proof -
  obtain st' where
    "header_step (fst sl) (str_remove [apostrophe] (str_remove [backslash] raw)) = Inr st'"
    using header_step_total by blast
  then show ?thesis
    by (simp add: scan_line_def Let_def)
qed

lemma scan_lines_no_exn: "fst (scan_lines U sl ls) = None"
proof (induction ls arbitrary: sl)
  case Nil
  then show ?case by simp
next
  case (Cons line ls)
  obtain sl' where "scan_line U sl line = Inr sl'"
    using scan_line_total by blast
  with Cons.IH [of sl'] show ?case by simp
qed

lemma scan_block_no_exn: "fst (scan_block U sl block) = None"
proof -
  obtain ls where "block_lines block = Inr ls"
    using block_lines_total by blast
  then show ?thesis
    by (simp add: scan_block_def scan_lines_no_exn)
qed

lemma scan_content_no_exn: "fst (scan_content U sl content) = None"
proof (induction content arbitrary: sl)
  case Nil
  then show ?case by simp
next
  case (Cons block content)
  obtain sl' where "scan_block U sl block = (None, sl')"
    using scan_block_no_exn [of U sl block] by (cases "scan_block U sl block") simp
  with Cons.IH [of sl'] show ?case by simp
qed

lemma fst_scan_post:
  "fst (scan_post U d p) = (if post_raises p then Some AttributeError else None)"
proof -
  have "\<And>content. fst (scan_content U (init_state, d) content) = None"
    by (rule scan_content_no_exn)
  then show ?thesis
    by (auto simp: scan_post_def post_raises_def split_def split: option.splits prod.splits)
       (metis fst_conv)+
qed

lemma scan_posts_exn: "fst (scan_posts U d ps) = Some e \<Longrightarrow> e = AttributeError"
proof (induction ps arbitrary: d)
  case Nil
  then show ?case by simp
next
  case (Cons p ps)
  obtain r d1 where p: "scan_post U d p = (r, d1)"
    by (cases "scan_post U d p")
  show ?case
  proof (cases r)
    case None
    with Cons.prems p have "fst (scan_posts U d1 ps) = Some e"
      by simp
    then show ?thesis by (rule Cons.IH)
  next
    case (Some e')
    with fst_scan_post [of U d p] p have "e' = AttributeError"
      by (simp split: if_splits)
    with Cons.prems p Some show ?thesis by simp
  qed
qed

lemma fetch_forum_page_Response:
  "fetch_forum_page U (Response status posts) =
     Inr (if status \<noteq> 200 then [] else snd (scan_posts U [] posts))"
proof -
  obtain r d where sp: "scan_posts U [] posts = (r, d)"
    by (cases "scan_posts U [] posts")
  show ?thesis
  proof (cases r)
    case None
    with sp show ?thesis by (simp add: fetch_forum_page_def)
  next
    case (Some e)
    with scan_posts_exn [of U "[]" posts e] sp have "e = AttributeError"
      by simp
    with sp Some show ?thesis
      by (simp add: fetch_forum_page_def is_Exception_def)
  qed
qed

lemma fetch_forum_page_ok: "fetch_forum_page U r = Inr d \<Longrightarrow> keys_ok d"
proof (cases r)
  case (Fetch_raises e)
  assume "fetch_forum_page U r = Inr d"
  with Fetch_raises have "d = []"
    by (auto simp: fetch_forum_page_def split: if_splits)
  then show ?thesis by (simp add: keys_ok_def)
next
  case (Response status posts)
  assume "fetch_forum_page U r = Inr d"
  with Response have "d = (if status \<noteq> 200 then [] else snd (scan_posts U [] posts))"
    by (simp add: fetch_forum_page_Response)
  with scan_posts_ok [of "[]" U posts] show ?thesis
    by (simp add: keys_ok_def)
qed


section \<open>Header lines\<close>

lemma valid_keyD:
  "valid_key k \<Longrightarrow> \<exists>m d. k = (Some m, Some d) \<and> 1 \<le> m \<and> m \<le> 12 \<and> 1 \<le> d"
  by (cases k; cases "fst k"; cases "snd k") (auto simp: valid_key_def)

lemma scan_line_no_day:
  assumes "\<not> truthy (current_day st)"
  shows "\<exists>st'. scan_line U (st, loc) raw = Inr (st', loc)"
proof -
  obtain st' where "header_step st (str_remove [apostrophe] (str_remove [backslash] raw)) = Inr st'"
    using header_step_total by blast
  with assms show ?thesis
    by (auto simp: scan_line_def is_name_def Let_def)
qed

lemmas page_defs = fetch_forum_page_def is_Exception_def scan_post_def block_lines_def
  scan_block_def strip_def isspace_def author_name_def

text \<open>
  Claim C10. On every line that passes the header test, the month lookup over the
  aliases sorted by decreasing length finds an alias: it is not empty, it occurs in the
  line, and the table maps it to a month. So neither \<open>if not month_text\<close> nor
  \<open>if current_month is None\<close> is taken: the header step ends with the month set
  (13 folded into 12) and with a day.
\<close>

theorem header_month_resolves:
  assumes "is_header line"
  shows "\<exists>m n. find_month_text line = Some m \<and> m \<noteq> [] \<and> contains m line
           \<and> map_of month_map m = Some n \<and> 1 \<le> n \<and> n \<le> 13
           \<and> (\<exists>st'. header_step st line = Inr st'
                 \<and> current_month st' = Some (if n = 13 then 12 else n)
                 \<and> current_day st' \<noteq> None)"
proof -
  from assms have "list_ex (\<lambda>m. contains m line) (map fst month_map)"
    by (simp add: is_header_def)
  then obtain m where fm: "find_month_text line = Some m"
    using find_month_text_found by blast
  from find_month_text_SomeD [OF fm] month_keys_facts
  have m: "contains m line" "m \<noteq> []"
    by blast+
  obtain day_text rest where sp: "split line [space] = Inr (day_text # rest)"
    using split_space by blast
  obtain v where hv: "hebrew_to_int day_text = Inr v"
    using hebrew_to_int_nonneg by blast
  from header_step_result [OF sp fm hv, of st] fm m show ?thesis
    by auto
qed

theorem header_month_resolves_witness:
  "is_header [kaf, space, tav, shin, resh, yod]
   \<and> find_month_text [kaf, space, tav, shin, resh, yod] = Some [tav, shin, resh, yod]
   \<and> (\<exists>m n. find_month_text [kaf, space, tav, shin, resh, yod] = Some m \<and> m \<noteq> []
         \<and> contains m [kaf, space, tav, shin, resh, yod]
         \<and> map_of month_map m = Some n \<and> 1 \<le> n \<and> n \<le> 13
         \<and> (\<exists>st'. header_step init_state [kaf, space, tav, shin, resh, yod] = Inr st'
               \<and> current_month st' = Some (if n = 13 then 12 else n)
               \<and> current_day st' \<noteq> None))"
proof -
  have h: "is_header [kaf, space, tav, shin, resh, yod]"
    by (simp add: scan_defs)
  have f: "find_month_text [kaf, space, tav, shin, resh, yod] = Some [tav, shin, resh, yod]"
    by (simp add: scan_defs)
  show ?thesis
    using h f header_month_resolves [OF h, of init_state] by simp
qed

text \<open>
  Claim C8. \<open>hebrew_to_int\<close> returns a number, and never an exception, on every
  string (a character outside the table counts 0). So the \<open>except ValueError\<close>
  branch of the scanner is never taken: on every header line the step ends with
  \<open>current_day\<close> set to the decoded value of the first token, and changes no record.
\<close>

theorem decode_failure_unreachable:
  "(\<exists>v. hebrew_to_int s = Inr v \<and> 0 \<le> v)
   \<and> (is_header (str_remove [apostrophe] (str_remove [backslash] raw)) \<longrightarrow>
        (\<exists>day_text rest v st'.
           split (str_remove [apostrophe] (str_remove [backslash] raw)) [space]
             = Inr (day_text # rest)
           \<and> hebrew_to_int day_text = Inr v
           \<and> scan_line U (st, d) raw = Inr (st', d)
           \<and> current_day st' = Some v))"
proof -
  let ?line = "str_remove [apostrophe] (str_remove [backslash] raw)"
  have "\<exists>day_text rest v st'.
           split ?line [space] = Inr (day_text # rest)
           \<and> hebrew_to_int day_text = Inr v
           \<and> scan_line U (st, d) raw = Inr (st', d)
           \<and> current_day st' = Some v" if hd: "is_header ?line"
  proof -
    from hd have "list_ex (\<lambda>m. contains m ?line) (map fst month_map)"
      by (simp add: is_header_def)
    then obtain m where fm: "find_month_text ?line = Some m"
      using find_month_text_found by blast
    obtain day_text rest where sp: "split ?line [space] = Inr (day_text # rest)"
      using split_space by blast
    obtain v where hv: "hebrew_to_int day_text = Inr v"
      using hebrew_to_int_nonneg by blast
    from header_step_result [OF sp fm hv, of st] obtain st'
      where "header_step st ?line = Inr st'" "current_day st' = Some v"
      by auto
    with hd sp hv show ?thesis
      by (simp add: scan_line_def)
  qed
  with hebrew_to_int_nonneg [of s] show ?thesis by blast
qed

theorem decode_failure_unreachable_witness:
  "is_header (str_remove [apostrophe] (str_remove [backslash] [65, alef, bet, backslash]))
   \<and> hebrew_to_int [65, alef, bet] = Inr 3
   \<and> (\<exists>st'. scan_line ucd_excerpt (init_state, []) [65, alef, bet, backslash] = Inr (st', [])
          \<and> current_day st' = Some 3)"
proof -
  have h: "is_header (str_remove [apostrophe] (str_remove [backslash] [65, alef, bet, backslash]))"
    by (simp add: scan_defs)
  have sp: "split (str_remove [apostrophe] (str_remove [backslash] [65, alef, bet, backslash])) [space]
            = Inr [[65, alef, bet]]"
    by (simp add: split_def)
  have v: "hebrew_to_int [65, alef, bet] = Inr 3"
    by (simp add: scan_defs)
  from decode_failure_unreachable [of "[65, alef, bet]" "[65, alef, bet, backslash]" ucd_excerpt init_state "[]"]
    h sp v show ?thesis
    by auto
qed

section \<open>Emitted keys\<close>

text \<open>
  Claim C3, as stated: no record carries a day greater than 30. It fails for a post
  whose header line starts with the token lamed-bet (30 + 2) followed by the month Av:
  the record of the next name line has the key (5, 32).
\<close>

theorem day_above_30_counterexample:
  "fetch_forum_page ucd_excerpt
     (Response 200
        [\<lparr> author = None,
            postbody = Some (Some ([lamed, bet, space, alef, bet, newline] @ rabbi @ [74])) \<rparr>])
   = Inr [((Some 5, Some 32), [\<lparr> entry_text = rabbi @ [74], adar_pref = None \<rparr>])]"
  by (simp add: page_defs scan_defs nikud_defs)

text \<open>
  Claim C3, amended. Every key of the map \<open>fetch_forum_page\<close> returns has a month
  from 1 to 12 and a day of at least 1 (never 0, never absent; the day is the decoded
  value of the header's first token and has no upper bound), and its list of records is
  not empty. A line scanned while \<open>current_day\<close> is absent or 0 emits no record.
\<close>

theorem emitted_keys_valid:
  "(fetch_forum_page U r = Inr local_yahrtzeits \<and> (k, es) \<in> set local_yahrtzeits \<longrightarrow>
      (\<exists>m d. k = (Some m, Some d) \<and> 1 \<le> m \<and> m \<le> 12 \<and> 1 \<le> d) \<and> es \<noteq> [])
   \<and> (\<exists>d. fetch_forum_page U (Response status posts) = Inr d)
   \<and> (\<not> truthy (current_day st) \<longrightarrow> (\<exists>st'. scan_line U (st, loc) raw = Inr (st', loc)))"
proof -
  have "(\<exists>m d. k = (Some m, Some d) \<and> 1 \<le> m \<and> m \<le> 12 \<and> 1 \<le> d) \<and> es \<noteq> []"
    if "fetch_forum_page U r = Inr local_yahrtzeits" "(k, es) \<in> set local_yahrtzeits"
  proof -
    from that fetch_forum_page_ok [of U r local_yahrtzeits] have "valid_key k \<and> es \<noteq> []"
      by (auto simp: keys_ok_def list_all_iff)
    then show ?thesis
      using valid_keyD by blast
  qed
  moreover have "\<exists>d. fetch_forum_page U (Response status posts) = Inr d"
    by (simp add: fetch_forum_page_Response)
  ultimately show ?thesis
    using scan_line_no_day by blast
qed

theorem emitted_keys_valid_witness:
  "fetch_forum_page ucd_excerpt
        (Response 200
          [\<lparr> author = None,
              postbody = Some (Some ([kaf, space, alef, dalet, resh, newline] @ rabbi @ [74])) \<rparr>])
     = Inr [((Some 12, Some 20), [\<lparr> entry_text = rabbi @ [74], adar_pref = None \<rparr>])]
   \<and> ((Some 12, Some 20), [\<lparr> entry_text = rabbi @ [74], adar_pref = None \<rparr>])
       \<in> set [((Some 12, Some 20), [\<lparr> entry_text = rabbi @ [74], adar_pref = None \<rparr>])]
   \<and> \<not> truthy (current_day init_state)
   \<and> scan_line ucd_excerpt (init_state, []) (rabbi @ [74]) = Inr (init_state, [])"
proof -
  let ?r = "Response 200
          [\<lparr> author = None,
              postbody = Some (Some ([kaf, space, alef, dalet, resh, newline] @ rabbi @ [74])) \<rparr>]"
  have a: "fetch_forum_page ucd_excerpt ?r
           = Inr [((Some 12, Some 20), [\<lparr> entry_text = rabbi @ [74], adar_pref = None \<rparr>])]"
    by (simp add: page_defs scan_defs nikud_defs)
  have b: "\<not> truthy (current_day init_state)"
    by (simp add: truthy_def init_state_def)
  have c: "scan_line ucd_excerpt (init_state, []) (rabbi @ [74]) = Inr (init_state, [])"
    by (simp add: scan_defs)
  from emitted_keys_valid [of ucd_excerpt ?r
      "[((Some 12, Some 20), [\<lparr> entry_text = rabbi @ [74], adar_pref = None \<rparr>])]"
      "(Some 12, Some 20)" "[\<lparr> entry_text = rabbi @ [74], adar_pref = None \<rparr>]"
      200 "[]" init_state "[]" "rabbi @ [74]"]
    a b c show ?thesis by simp
qed

section \<open>Header followed by a name line\<close>

lemma str_remove_absent: "old \<noteq> [] \<Longrightarrow> hd old \<notin> set s \<Longrightarrow> str_remove old s = s"
  by (induction s) (auto simp: neq_Nil_conv)

lemma contains_set: "contains m s \<Longrightarrow> set m \<subseteq> set s"
proof (induction s)
  case Nil
  then show ?case by simp
next
  case (Cons c cs)
  from Cons.prems have "prefix m (c # cs) \<or> contains m cs"
    by simp
  then show ?case
  proof
    assume "prefix m (c # cs)"
    then show ?thesis by (rule set_mono_prefix)
  next
    assume "contains m cs"
    with Cons.IH show ?thesis by auto
  qed
qed

lemma header_pref_none:
  assumes "is_header (str_remove [apostrophe] (str_remove [backslash] raw))"
  shows "\<exists>st'. scan_line U (st, d) raw = Inr (st', d) \<and> default_pref st' = None"
proof -
  let ?line = "str_remove [apostrophe] (str_remove [backslash] raw)"
  from assms have "list_ex (\<lambda>m. contains m ?line) (map fst month_map)"
    by (simp add: is_header_def)
  then obtain m where fm: "find_month_text ?line = Some m"
    using find_month_text_found by blast
  from find_month_text_SomeD [OF fm] have "set m \<subseteq> set ?line"
    using contains_set by blast
  then have "apostrophe \<notin> set m"
    by (auto simp: str_remove_single)
  then have m: "m \<noteq> adar_a" "m \<noteq> adar_b"
    by (auto simp: adar_a_def adar_b_def)
  obtain day_text rest where sp: "split ?line [space] = Inr (day_text # rest)"
    using split_space by blast
  obtain v where hv: "hebrew_to_int day_text = Inr v"
    using hebrew_to_int_nonneg by blast
  from header_step_result [OF sp fm hv, of st] m assms show ?thesis
    by (auto simp: scan_line_def)
qed

lemma name_line_no_marker:
  assumes "list_ex (startswith line) name_prefixes"
  shows "\<not> startswith (str_remove [qmark, qmark] line) marker_a
         \<and> \<not> startswith (str_remove [qmark, qmark] line) marker_b"
proof -
  from assms obtain p zs where p: "p \<in> set name_prefixes" "line = p @ zs"
    by (auto simp: list_ex_iff startswith_def prefix_def)
  then show ?thesis
    by (auto simp: name_prefixes_def startswith_def marker_a_def marker_b_def)
qed

lemma name_step_default:
  assumes "is_name st line"
  shows "name_step U st d line =
           dict_extend (current_month st, current_day st)
             [\<lparr> entry_text = remove_nikud U (str_remove [qmark, qmark] line),
                 adar_pref = default_pref st \<rparr>] d"
  using name_line_no_marker [of line] assms
  by (simp add: name_step_def is_name_def)

text \<open>
  Claim C1, as stated: the text of the record is the name line with its diacritics
  removed. It fails for a name line with an apostrophe: the scanner deletes the
  apostrophe first, so the block "kaf tishrei" / "rabbi J'K" gives the text "rabbi JK",
  while the line with its diacritics removed still holds the apostrophe.
\<close>

theorem name_line_apostrophe_counterexample:
  "scan_block ucd_excerpt (init_state, [])
     ([kaf, space, tav, shin, resh, yod, newline] @ rabbi @ [74, apostrophe, 75])
   = (None,
      \<lparr> current_day = Some 20, current_month = Some 7, default_pref = None \<rparr>,
      [((Some 7, Some 20), [\<lparr> entry_text = rabbi @ [74, 75], adar_pref = None \<rparr>])])
   \<and> remove_nikud ucd_excerpt (rabbi @ [74, apostrophe, 75]) = rabbi @ [74, apostrophe, 75]"
  by (simp add: page_defs scan_defs nikud_defs)

text \<open>
  Claim C1, amended. From the initial state and an empty map, a block whose lines are
  "kaf tishrei" (a numeral worth 20 and the bare alias of month 7) and a line that
  starts with the primary prefix "rabbi " gives exactly one record, under the key
  (7, 20): its text is the name line with its backslashes, its apostrophes and then
  its doubled question marks deleted and its diacritics removed, and its preference is
  absent.
\<close>

theorem header_then_name_emits_one:
  "scan_lines U (init_state, []) [[kaf, space, tav, shin, resh, yod], rabbi @ rest]
     = (None,
        \<lparr> current_day = Some 20, current_month = Some 7, default_pref = None \<rparr>,
        [((Some 7, Some 20),
          [\<lparr> entry_text =
               remove_nikud U
                 (str_remove [qmark, qmark]
                    (str_remove [apostrophe] (str_remove [backslash] (rabbi @ rest)))),
             adar_pref = None \<rparr>])])
   \<and> (block_lines block = Inr [[kaf, space, tav, shin, resh, yod], rabbi @ rest] \<longrightarrow>
        scan_block U (init_state, []) block
          = (None,
             \<lparr> current_day = Some 20, current_month = Some 7, default_pref = None \<rparr>,
             [((Some 7, Some 20),
               [\<lparr> entry_text =
                    remove_nikud U
                      (str_remove [qmark, qmark]
                         (str_remove [apostrophe] (str_remove [backslash] (rabbi @ rest)))),
                  adar_pref = None \<rparr>])]))"
proof -
  let ?st = "\<lparr> current_day = Some 20, current_month = Some 7, default_pref = None \<rparr>"
  let ?line = "str_remove [apostrophe] (str_remove [backslash] (rabbi @ rest))"
  have first: "scan_line U (init_state, []) [kaf, space, tav, shin, resh, yod] = Inr (?st, [])"
    by (simp add: scan_defs)
  have clean: "?line = rabbi @ filter (\<lambda>c. c \<noteq> apostrophe) (filter (\<lambda>c. c \<noteq> backslash) rest)"
    by (simp add: str_remove_single rabbi_def)
  have not_header: "\<not> is_header ?line"
    unfolding clean by (simp add: is_header_def startswith_def)
  have name: "is_name ?st ?line"
    unfolding clean
    by (simp add: is_name_def truthy_def name_prefixes_def startswith_def rabbi_def)
  have second: "scan_line U (?st, []) (rabbi @ rest)
      = Inr (?st, [((Some 7, Some 20),
              [\<lparr> entry_text = remove_nikud U (str_remove [qmark, qmark] ?line),
                 adar_pref = None \<rparr>])])"
    using not_header name by (simp add: scan_line_def name_step_default [OF name])
  have lines: "scan_lines U (init_state, []) [[kaf, space, tav, shin, resh, yod], rabbi @ rest]
      = (None, ?st, [((Some 7, Some 20),
              [\<lparr> entry_text = remove_nikud U (str_remove [qmark, qmark] ?line),
                 adar_pref = None \<rparr>])])"
    by (simp add: first second)
  then show ?thesis
    by (simp add: scan_block_def)
qed

theorem header_then_name_emits_one_witness:
  "block_lines ([kaf, space, tav, shin, resh, yod, newline, space] @ rabbi
                  @ [64298, 1464, apostrophe, qmark, qmark, 74, space])
     = Inr [[kaf, space, tav, shin, resh, yod],
            rabbi @ [64298, 1464, apostrophe, qmark, qmark, 74]]
   \<and> scan_block ucd_excerpt (init_state, [])
        ([kaf, space, tav, shin, resh, yod, newline, space] @ rabbi
           @ [64298, 1464, apostrophe, qmark, qmark, 74, space])
     = (None,
        \<lparr> current_day = Some 20, current_month = Some 7, default_pref = None \<rparr>,
        [((Some 7, Some 20), [\<lparr> entry_text = rabbi @ [shin, 74], adar_pref = None \<rparr>])])"
proof -
  let ?block = "[kaf, space, tav, shin, resh, yod, newline, space] @ rabbi
                  @ [64298, 1464, apostrophe, qmark, qmark, 74, space]"
  have lines: "block_lines ?block
     = Inr [[kaf, space, tav, shin, resh, yod],
            rabbi @ [64298, 1464, apostrophe, qmark, qmark, 74]]"
    by (simp add: block_lines_def split_def strip_def isspace_def rabbi_def)
  have stripped: "remove_nikud ucd_excerpt
               (str_remove [qmark, qmark]
                  (str_remove [apostrophe]
                     (str_remove [backslash]
                        (rabbi @ [64298, 1464, apostrophe, qmark, qmark, 74]))))
             = rabbi @ [shin, 74]"
    by (simp add: nikud_defs rabbi_def)
  from header_then_name_emits_one
         [of ucd_excerpt "[64298, 1464, apostrophe, qmark, qmark, 74]" ?block,
          THEN conjunct2, rule_format, OF lines]
  have "scan_block ucd_excerpt (init_state, []) ?block
     = (None,
        \<lparr> current_day = Some 20, current_month = Some 7, default_pref = None \<rparr>,
        [((Some 7, Some 20), [\<lparr> entry_text = rabbi @ [shin, 74], adar_pref = None \<rparr>])])"
    by (simp only: stripped)
  with lines show ?thesis
    by (intro conjI)
qed

section \<open>The leap-month preference\<close>

text \<open>
  Claim C2. The header line "kaf adar alef-apostrophe" holds both the bare alias and the
  first-half alias, and the claim expects month 12 with the preference \<open>first\<close>. The
  scanner deletes the apostrophe before the lookup, so only the bare alias is found:
  the month is 12 and the preference is absent. More generally every header line
  leaves \<open>default_pref\<close> absent, since no stripped line contains an alias with an
  apostrophe.
\<close>

theorem first_half_alias_loses_preference:
  "scan_lines U (init_state, []) [[kaf, space, alef, dalet, resh, space, alef, apostrophe]]
     = (None, \<lparr> current_day = Some 20, current_month = Some 12, default_pref = None \<rparr>, [])
   \<and> (is_header (str_remove [apostrophe] (str_remove [backslash] raw)) \<longrightarrow>
        (\<exists>st'. scan_line U (st, d) raw = Inr (st', d) \<and> default_pref st' = None))"
proof -
  have "scan_lines U (init_state, []) [[kaf, space, alef, dalet, resh, space, alef, apostrophe]]
     = (None, \<lparr> current_day = Some 20, current_month = Some 12, default_pref = None \<rparr>, [])"
    by (simp add: scan_defs)
  then show ?thesis
    using header_pref_none by blast
qed

theorem first_half_alias_loses_preference_witness:
  "contains [alef, dalet, resh] [kaf, space, alef, dalet, resh, space, alef, apostrophe]
   \<and> contains adar_a [kaf, space, alef, dalet, resh, space, alef, apostrophe]
   \<and> is_header (str_remove [apostrophe] (str_remove [backslash]
         [kaf, space, alef, dalet, resh, space, alef, apostrophe]))
   \<and> (\<exists>st'. scan_line ucd_excerpt
              (\<lparr> current_day = None, current_month = None, default_pref = Some 2 \<rparr>, [])
              [kaf, space, alef, dalet, resh, space, alef, apostrophe] = Inr (st', [])
          \<and> default_pref st' \<noteq> Some 1)"
proof -
  let ?raw = "[kaf, space, alef, dalet, resh, space, alef, apostrophe]"
  have c: "contains [alef, dalet, resh] ?raw" "contains adar_a ?raw"
    by (simp_all add: adar_a_def)
  have h: "is_header (str_remove [apostrophe] (str_remove [backslash] ?raw))"
    by (simp add: scan_defs)
  from first_half_alias_loses_preference
    [of ucd_excerpt ?raw "\<lparr> current_day = None, current_month = None, default_pref = Some 2 \<rparr>" "[]"] h
  have "\<exists>st'. scan_line ucd_excerpt
              (\<lparr> current_day = None, current_month = None, default_pref = Some 2 \<rparr>, [])
              ?raw = Inr (st', []) \<and> default_pref st' = None"
    by blast
  with c h show ?thesis by auto
qed

text \<open>
  Claim C7. A line that begins with the marker "(bet)" starts with none of the name
  prefixes, so the scanner ignores it and emits nothing, whatever the inherited
  preference is. A line that passes the name test never begins with a marker once
  "??" is removed, so each record gets the inherited \<open>default_pref\<close> and the whole
  line, marker included, as its text.
\<close>

theorem leaf_marker_never_applies:
  "scan_lines U (init_state, [])
       [[kaf, space, alef, dalet, resh], marker_b @ [space] @ rabbi @ [74]]
     = (None, \<lparr> current_day = Some 20, current_month = Some 12, default_pref = None \<rparr>, [])
   \<and> scan_line U (\<lparr> current_day = Some 20, current_month = Some 12, default_pref = Some 1 \<rparr>, [])
       (marker_b @ [space] @ rabbi @ [74])
     = Inr (\<lparr> current_day = Some 20, current_month = Some 12, default_pref = Some 1 \<rparr>, [])
   \<and> (is_name st line \<longrightarrow>
        name_step U st d line =
           dict_extend (current_month st, current_day st)
             [\<lparr> entry_text = remove_nikud U (str_remove [qmark, qmark] line),
                 adar_pref = default_pref st \<rparr>] d)"
proof -
  have a: "scan_lines U (init_state, [])
       [[kaf, space, alef, dalet, resh], marker_b @ [space] @ rabbi @ [74]]
     = (None, \<lparr> current_day = Some 20, current_month = Some 12, default_pref = None \<rparr>, [])"
    by (simp add: scan_defs)
  have b: "scan_line U (\<lparr> current_day = Some 20, current_month = Some 12, default_pref = Some 1 \<rparr>, [])
       (marker_b @ [space] @ rabbi @ [74])
     = Inr (\<lparr> current_day = Some 20, current_month = Some 12, default_pref = Some 1 \<rparr>, [])"
    by (simp add: scan_defs)
  show ?thesis
    using a b name_step_default by blast
qed

theorem leaf_marker_never_applies_witness:
  "is_name \<lparr> current_day = Some 20, current_month = Some 12, default_pref = Some 1 \<rparr>
      (rabbi @ marker_b @ [space, 74])
   \<and> name_step ucd_excerpt
        \<lparr> current_day = Some 20, current_month = Some 12, default_pref = Some 1 \<rparr> []
        (rabbi @ marker_b @ [space, 74])
      = [((Some 12, Some 20),
          [\<lparr> entry_text = rabbi @ marker_b @ [space, 74], adar_pref = Some 1 \<rparr>])]"
proof -
  let ?st = "\<lparr> current_day = Some 20, current_month = Some 12, default_pref = Some 1 \<rparr>"
  have n: "is_name ?st (rabbi @ marker_b @ [space, 74])"
    by (simp add: scan_defs)
  have r: "remove_nikud ucd_excerpt (str_remove [qmark, qmark] (rabbi @ marker_b @ [space, 74]))
           = rabbi @ marker_b @ [space, 74]"
    by (simp add: nikud_defs rabbi_def marker_b_def)
  from leaf_marker_never_applies [of ucd_excerpt ?st "rabbi @ marker_b @ [space, 74]" "[]"] n r
  show ?thesis by simp
qed

section \<open>Facts about the aggregation\<close>


lemma upt_0_Suc: "[0..<Suc n] = 0 # map Suc [0..<n]"
  by (simp add: upt_conv_Cons map_Suc_upt del: upt_Suc)

lemma dedup_loop_indices:
  "dedup_loop seen out es =
     out @ map (\<lambda>i. es ! i)
       (filter (\<lambda>i. (entry_text (es ! i), adar_pref (es ! i)) \<notin> seen
                     \<and> list_all (\<lambda>j. (entry_text (es ! j), adar_pref (es ! j))
                                    \<noteq> (entry_text (es ! i), adar_pref (es ! i))) [0..<i])
          [0..<length es])"
proof (induction es arbitrary: seen out)
  case Nil
  then show ?case by simp
next
  case (Cons e es)
  show ?case
    unfolding dedup_loop.simps Let_def Cons.IH
    apply (simp add: upt_0_Suc filter_map comp_def list.pred_map del: upt_Suc)
    apply (auto intro!: filter_cong arg_cong [where f = "map ((!) es)"])
    done
qed

lemma dedup_loop_first_occurrences: "dedup_loop {} [] es = first_occurrences es"
  by (simp add: dedup_loop_indices first_occurrences_def)


lemma dict_get_dict_extend:
  "dict_get (dict_extend k vs d) k' [] =
     (if k' = k then dict_get d k' [] @ vs else dict_get d k' [])"
  by (induction d) (auto simp: dict_get_def)

lemma dict_get_foldl_extend:
  "dict_get (foldl (\<lambda>d (k, v). dict_extend k v d) data result) k' [] =
     dict_get data k' [] @ concat (map snd (filter (\<lambda>p. fst p = k') result))"
proof (induction result arbitrary: data)
  case Nil
  then show ?case by simp
next
  case (Cons p result)
  obtain k v where p: "p = (k, v)" by (cases p)
  show ?case
    by (simp add: Cons.IH p dict_get_dict_extend)
qed

lemma dict_get_merge_results:
  "merge_results data results = Inr out \<Longrightarrow>
     dict_get out k [] = dict_get data k [] @ records_at k results"
proof (induction results arbitrary: data)
  case Nil
  then show ?case by (simp add: records_at_def)
next
  case (Cons r results)
  show ?case
  proof (cases r)
    case (Inl e)
    with Cons.prems have "merge_results data results = Inr out"
      by (simp split: if_splits)
    from Cons.IH [OF this] Inl show ?thesis
      by (simp add: records_at_def)
  next
    case (Inr result)
    with Cons.prems
    have "merge_results (foldl (\<lambda>d (k, v). dict_extend k v d) data result) results = Inr out"
      by simp
    from Cons.IH [OF this] Inr show ?thesis
      by (simp add: records_at_def dict_get_foldl_extend)
  qed
qed

lemma merge_results_completes:
  "\<forall>x. Inl x \<in> set results \<longrightarrow> is_Exception x \<Longrightarrow> \<exists>out. merge_results data results = Inr out"
proof (induction results arbitrary: data)
  case Nil
  then show ?case by simp
next
  case (Cons r results)
  from Cons.prems have rest: "\<forall>x. Inl x \<in> set results \<longrightarrow> is_Exception x"
    by simp
  show ?case
  proof (cases r)
    case (Inl e)
    with Cons.prems have "is_Exception e" by simp
    with Cons.IH [OF rest, of data] Inl show ?thesis by simp
  next
    case (Inr result)
    with Cons.IH [OF rest, of "foldl (\<lambda>d (k, v). dict_extend k v d) data result"]
    show ?thesis by simp
  qed
qed

lemma dict_get_dedup_data:
  "dict_get (dedup_data data) k [] = dedup_loop {} [] (dict_get data k [])"
  by (induction data) (auto simp: dedup_data_def dict_get_def)

lemma dict_get_main_data:
  assumes "main_data results = Inr agg"
  shows "dict_get agg k [] = first_occurrences (records_at k results)"
proof -
  from assms obtain data where m: "merge_results [] results = Inr data"
    and agg: "agg = dedup_data data"
    by (auto simp: main_data_def split: sum.splits)
  have "dict_get ([]::yahrtzeits) k [] = []"
    by (simp add: dict_get_def)
  with dict_get_merge_results [OF m, of k] show ?thesis
    by (simp add: agg dict_get_dedup_data dedup_loop_first_occurrences)
qed

lemma main_data_completes:
  "\<forall>x. Inl x \<in> set results \<longrightarrow> is_Exception x \<Longrightarrow> \<exists>agg. main_data results = Inr agg"
  using merge_results_completes [of results "[]"] by (auto simp: main_data_def)


lemma distinct_dedup_loop:
  "distinct (map (\<lambda>e. (entry_text e, adar_pref e)) out)
   \<Longrightarrow> (\<lambda>e. (entry_text e, adar_pref e)) ` set out \<subseteq> seen
   \<Longrightarrow> distinct (map (\<lambda>e. (entry_text e, adar_pref e)) (dedup_loop seen out es))"
proof (induction es arbitrary: seen out)
  case Nil
  then show ?case by simp
next
  case (Cons e es)
  show ?case
  proof (cases "(entry_text e, adar_pref e) \<in> seen")
    case True
    with Cons.IH [OF Cons.prems] show ?thesis by simp
  next
    case False
    have "distinct (map (\<lambda>e. (entry_text e, adar_pref e))
            (dedup_loop (insert (entry_text e, adar_pref e) seen) (out @ [e]) es))"
      using Cons.prems False by (intro Cons.IH) auto
    with False show ?thesis by simp
  qed
qed








section \<open>The aggregate\<close>

text \<open>
  Claim C5. After the aggregation, the list kept under a key is the list of all records
  the results hold under that key, in the order of the merge and of emission, reduced
  to the first occurrence of each pair of text and preference; the survivors keep
  their order and no pair occurs twice. The aggregation completes whenever every
  gathered exception is an instance of \<open>Exception\<close>. Two records of one key that differ
  only in the preference are both kept.
\<close>

theorem aggregate_keeps_first_occurrences:
  "(main_data results = Inr agg \<longrightarrow>
      dict_get agg k [] = first_occurrences (records_at k results)
      \<and> distinct (map (\<lambda>e. (entry_text e, adar_pref e)) (dict_get agg k [])))
   \<and> ((\<forall>x. Inl x \<in> set results \<longrightarrow> is_Exception x) \<longrightarrow> (\<exists>agg'. main_data results = Inr agg'))
   \<and> (a \<noteq> b \<longrightarrow>
        main_data [Inr [(k, [\<lparr> entry_text = t, adar_pref = a \<rparr>,
                             \<lparr> entry_text = t, adar_pref = b \<rparr>,
                             \<lparr> entry_text = t, adar_pref = a \<rparr>])]]
        = Inr [(k, [\<lparr> entry_text = t, adar_pref = a \<rparr>, \<lparr> entry_text = t, adar_pref = b \<rparr>])])"
proof -
  have kept: "dict_get agg k [] = first_occurrences (records_at k results)
      \<and> distinct (map (\<lambda>e. (entry_text e, adar_pref e)) (dict_get agg k []))"
    if "main_data results = Inr agg"
  proof -
    have "distinct (map (\<lambda>e. (entry_text e, adar_pref e))
            (dedup_loop {} [] (records_at k results)))"
      by (rule distinct_dedup_loop) simp_all
    with dict_get_main_data [OF that, of k] show ?thesis
      by (simp add: dedup_loop_first_occurrences)
  qed
  have two: "main_data [Inr [(k, [\<lparr> entry_text = t, adar_pref = a \<rparr>,
                             \<lparr> entry_text = t, adar_pref = b \<rparr>,
                             \<lparr> entry_text = t, adar_pref = a \<rparr>])]]
        = Inr [(k, [\<lparr> entry_text = t, adar_pref = a \<rparr>, \<lparr> entry_text = t, adar_pref = b \<rparr>])]"
    if "a \<noteq> b"
    using that by (simp add: main_data_def dedup_data_def)
  show ?thesis
    using kept main_data_completes [of results] two by blast
qed

theorem aggregate_keeps_first_occurrences_witness:
  "main_data
     [Inr [((Some 7, Some 20), [\<lparr> entry_text = [65], adar_pref = None \<rparr>,
                                \<lparr> entry_text = [66], adar_pref = None \<rparr>])],
      Inl ClientError,
      Inr [((Some 7, Some 20), [\<lparr> entry_text = [66], adar_pref = None \<rparr>,
                                \<lparr> entry_text = [65], adar_pref = Some 1 \<rparr>,
                                \<lparr> entry_text = [65], adar_pref = None \<rparr>])]]
   = Inr [((Some 7, Some 20), [\<lparr> entry_text = [65], adar_pref = None \<rparr>,
                               \<lparr> entry_text = [66], adar_pref = None \<rparr>,
                               \<lparr> entry_text = [65], adar_pref = Some 1 \<rparr>])]
   \<and> first_occurrences
        [\<lparr> entry_text = [65], adar_pref = None \<rparr>, \<lparr> entry_text = [66], adar_pref = None \<rparr>,
         \<lparr> entry_text = [66], adar_pref = None \<rparr>, \<lparr> entry_text = [65], adar_pref = Some 1 \<rparr>,
         \<lparr> entry_text = [65], adar_pref = None \<rparr>]
      = [\<lparr> entry_text = [65], adar_pref = None \<rparr>, \<lparr> entry_text = [66], adar_pref = None \<rparr>,
         \<lparr> entry_text = [65], adar_pref = Some 1 \<rparr>]
   \<and> main_data [Inr [((Some 12, Some 1), [\<lparr> entry_text = [65], adar_pref = Some 1 \<rparr>,
                             \<lparr> entry_text = [65], adar_pref = Some 2 \<rparr>,
                             \<lparr> entry_text = [65], adar_pref = Some 1 \<rparr>])]]
        = Inr [((Some 12, Some 1), [\<lparr> entry_text = [65], adar_pref = Some 1 \<rparr>,
                                    \<lparr> entry_text = [65], adar_pref = Some 2 \<rparr>])]"
proof -
  let ?results = "[Inr [((Some 7, Some 20), [\<lparr> entry_text = [65], adar_pref = None \<rparr>,
                                \<lparr> entry_text = [66], adar_pref = None \<rparr>])],
      Inl ClientError,
      Inr [((Some 7, Some 20), [\<lparr> entry_text = [66], adar_pref = None \<rparr>,
                                \<lparr> entry_text = [65], adar_pref = Some 1 \<rparr>,
                                \<lparr> entry_text = [65], adar_pref = None \<rparr>])]]"
  let ?agg = "[((Some 7, Some 20), [\<lparr> entry_text = [65], adar_pref = None \<rparr>,
                               \<lparr> entry_text = [66], adar_pref = None \<rparr>,
                               \<lparr> entry_text = [65], adar_pref = Some 1 \<rparr>])] :: yahrtzeits"
  have m: "main_data ?results = Inr ?agg"
    by (simp add: main_data_def dedup_data_def is_Exception_def)
  have r: "records_at (Some 7, Some 20) ?results
     = [\<lparr> entry_text = [65], adar_pref = None \<rparr>, \<lparr> entry_text = [66], adar_pref = None \<rparr>,
         \<lparr> entry_text = [66], adar_pref = None \<rparr>, \<lparr> entry_text = [65], adar_pref = Some 1 \<rparr>,
         \<lparr> entry_text = [65], adar_pref = None \<rparr>]"
    by (simp add: records_at_def)
  have "first_occurrences (records_at (Some 7, Some 20) ?results)
          = dict_get ?agg (Some 7, Some 20) []"
    by (rule aggregate_keeps_first_occurrences
          [of ?results ?agg "(Some 7, Some 20)" "Some 1" "Some 2" "[65]",
           THEN conjunct1, THEN mp, OF m, THEN conjunct1, symmetric])
  also have "\<dots> = [\<lparr> entry_text = [65], adar_pref = None \<rparr>,
                    \<lparr> entry_text = [66], adar_pref = None \<rparr>,
                    \<lparr> entry_text = [65], adar_pref = Some 1 \<rparr>]"
    by (simp add: dict_get_def)
  finally have f: "first_occurrences
        [\<lparr> entry_text = [65], adar_pref = None \<rparr>, \<lparr> entry_text = [66], adar_pref = None \<rparr>,
         \<lparr> entry_text = [66], adar_pref = None \<rparr>, \<lparr> entry_text = [65], adar_pref = Some 1 \<rparr>,
         \<lparr> entry_text = [65], adar_pref = None \<rparr>]
      = [\<lparr> entry_text = [65], adar_pref = None \<rparr>, \<lparr> entry_text = [66], adar_pref = None \<rparr>,
         \<lparr> entry_text = [65], adar_pref = Some 1 \<rparr>]"
    unfolding r .
  have ne: "Some (1::int) \<noteq> Some 2" by simp
  have b: "main_data [Inr [((Some 12, Some 1), [\<lparr> entry_text = [65], adar_pref = Some 1 \<rparr>,
                             \<lparr> entry_text = [65], adar_pref = Some 2 \<rparr>,
                             \<lparr> entry_text = [65], adar_pref = Some 1 \<rparr>])]]
        = Inr [((Some 12, Some 1), [\<lparr> entry_text = [65], adar_pref = Some 1 \<rparr>,
                                    \<lparr> entry_text = [65], adar_pref = Some 2 \<rparr>])]"
    by (rule aggregate_keeps_first_occurrences
          [of "[]" "[]" "(Some 12, Some 1)" "Some 1" "Some 2" "[65]",
           THEN conjunct2, THEN conjunct2, THEN mp, OF ne])
  show ?thesis
    by (intro conjI m f b)
qed




end
